theory Spec2Isabelle
  imports Complex_Main "HOL-Library.Word"
begin

unbundle bit_operations_syntax

section \<open>JavaScript numbers\<close>

text \<open>
  Every field of \<^verbatim>\<open>BloomFilter\<close> but the bit array is a TypeScript \<^verbatim>\<open>number\<close>.
  A number is modelled as a real, or one of the three special values of the language.
  Two idealisations are made, both confined to the sizing formulas of the constructor:
  arithmetic on finite numbers is exact (no rounding, overflow or underflow of doubles;
  \<^verbatim>\<open>Math.log\<close> is the natural logarithm), and zero has no sign (\<open>Fin 0\<close> stands for
  \<^verbatim>\<open>+0\<close>). Hash values, array indices and loop counters are integers below \<open>2 ^ 53\<close>,
  which doubles hold exactly. The size and the number of hash functions computed here
  are thus those of the source up to the rounding of doubles: where the exact value lies
  next to an integer, the source can be one off.
\<close>

datatype number = Fin real | NaN | PInf | NInf

datatype error = RangeError

fun sign_of :: "number \<Rightarrow> real" where
  "sign_of (Fin x) = sgn x"
| "sign_of NaN = 0"
| "sign_of PInf = 1"
| "sign_of NInf = - 1"

definition inf_of_sign :: "real \<Rightarrow> number" where
  "inf_of_sign s = (if s = 0 then NaN else if 0 < s then PInf else NInf)"

text \<open>\<^verbatim>\<open>Math.log(x)\<close>\<close>

fun js_log :: "number \<Rightarrow> number" where
  "js_log (Fin x) = (if x < 0 then NaN else if x = 0 then NInf else Fin (ln x))"
| "js_log NaN = NaN"
| "js_log PInf = PInf"
| "js_log NInf = NaN"

text \<open>\<^verbatim>\<open>-x\<close>\<close>

fun js_neg :: "number \<Rightarrow> number" where
  "js_neg (Fin x) = Fin (- x)"
| "js_neg NaN = NaN"
| "js_neg PInf = NInf"
| "js_neg NInf = PInf"

text \<open>\<^verbatim>\<open>x * y\<close>: an infinity times zero is \<^verbatim>\<open>NaN\<close>.\<close>

fun js_mul :: "number \<Rightarrow> number \<Rightarrow> number" where
  "js_mul (Fin x) (Fin y) = Fin (x * y)"
| "js_mul (Fin x) NaN = NaN"
| "js_mul (Fin x) PInf = inf_of_sign (sgn x)"
| "js_mul (Fin x) NInf = inf_of_sign (- sgn x)"
| "js_mul NaN y = NaN"
| "js_mul PInf y = inf_of_sign (sign_of y)"
| "js_mul NInf y = inf_of_sign (- sign_of y)"

text \<open>
  \<^verbatim>\<open>x / y\<close>: \<^verbatim>\<open>0 / 0\<close> and a quotient of two infinities are \<^verbatim>\<open>NaN\<close>, a nonzero
  number over zero is an infinity, a finite number over an infinity is zero.
\<close>

fun js_div :: "number \<Rightarrow> number \<Rightarrow> number" where
  "js_div (Fin x) (Fin y) = (if y = 0 then inf_of_sign (sgn x) else Fin (x / y))"
| "js_div (Fin x) NaN = NaN"
| "js_div (Fin x) PInf = Fin 0"
| "js_div (Fin x) NInf = Fin 0"
| "js_div NaN y = NaN"
| "js_div PInf (Fin y) = (if y < 0 then NInf else PInf)"
| "js_div PInf y = NaN"
| "js_div NInf (Fin y) = (if y < 0 then PInf else NInf)"
| "js_div NInf y = NaN"

text \<open>\<^verbatim>\<open>x ** k\<close> for a literal exponent \<open>k\<close>; anything to the power \<open>0\<close> is \<open>1\<close>.\<close>

fun js_pow :: "number \<Rightarrow> nat \<Rightarrow> number" where
  "js_pow (Fin x) k = Fin (x ^ k)"
| "js_pow NaN k = (if k = 0 then Fin 1 else NaN)"
| "js_pow PInf k = (if k = 0 then Fin 1 else PInf)"
| "js_pow NInf k = (if k = 0 then Fin 1 else if even k then PInf else NInf)"

text \<open>\<^verbatim>\<open>Math.ceil(x)\<close>\<close>

fun js_ceil :: "number \<Rightarrow> number" where
  "js_ceil (Fin x) = Fin (of_int \<lceil>x\<rceil>)"
| "js_ceil x = x"

text \<open>\<^verbatim>\<open>x < y\<close>: false as soon as one side is \<^verbatim>\<open>NaN\<close>.\<close>

fun js_lt :: "number \<Rightarrow> number \<Rightarrow> bool" where
  "js_lt (Fin x) (Fin y) = (x < y)"
| "js_lt (Fin x) NaN = False"
| "js_lt (Fin x) PInf = True"
| "js_lt (Fin x) NInf = False"
| "js_lt NaN y = False"
| "js_lt PInf y = False"
| "js_lt NInf (Fin y) = True"
| "js_lt NInf NaN = False"
| "js_lt NInf PInf = True"
| "js_lt NInf NInf = False"

text \<open>
  \<^verbatim>\<open>x % y\<close>: the remainder of the division truncated towards zero, which doubles
  compute exactly; \<^verbatim>\<open>NaN\<close> when \<open>y\<close> is zero.
\<close>

definition trunc :: "real \<Rightarrow> real" where
  "trunc q = (if 0 \<le> q then of_int \<lfloor>q\<rfloor> else of_int \<lceil>q\<rceil>)"

fun js_mod :: "number \<Rightarrow> number \<Rightarrow> number" where
  "js_mod (Fin x) (Fin y) = (if y = 0 then NaN else Fin (x - y * trunc (x / y)))"
| "js_mod (Fin x) NaN = NaN"
| "js_mod (Fin x) y = Fin x"
| "js_mod x y = NaN"

section \<open>JavaScript arrays\<close>

text \<open>
  An array is an object: a \<^verbatim>\<open>length\<close> and a table of properties. The key of a property
  is the number it was written with (the language converts the number to its decimal
  string, which differs for different numbers). An assignment never fails: beyond the
  length it extends the array, and with a key that is no array index (\<^verbatim>\<open>NaN\<close>, a
  fraction, a negative number) it adds a plain property. Reading a missing property gives
  \<^verbatim>\<open>undefined\<close>, here \<open>None\<close>. Memory is not modelled: an array of any length the
  language admits can be allocated.
\<close>

record jsarray =
  array_length :: nat
  array_props :: "number \<Rightarrow> number option"

text \<open>The array index a key denotes: an integer from \<open>0\<close> to \<open>2 ^ 32 - 2\<close>.\<close>

fun array_index :: "number \<Rightarrow> nat option" where
  "array_index (Fin x) =
     (if 0 \<le> x \<and> x = of_int \<lfloor>x\<rfloor> \<and> x < 2 ^ 32 - 1 then Some (nat \<lfloor>x\<rfloor>) else None)"
| "array_index x = None"

text \<open>An array of \<open>n\<close> holes.\<close>

definition holes :: "nat \<Rightarrow> jsarray" where
  "holes n = \<lparr>array_length = n, array_props = (\<lambda>k. None)\<rparr>"

text \<open>
  \<^verbatim>\<open>new Array(n)\<close>: \<open>n\<close> holes. The language raises \<^verbatim>\<open>RangeError\<close> unless \<open>n\<close> is an
  integer from \<open>0\<close> to \<open>2 ^ 32 - 1\<close>.
\<close>

fun new_Array :: "number \<Rightarrow> error + jsarray" where
  "new_Array (Fin x) =
     (if 0 \<le> x \<and> x = of_int \<lfloor>x\<rfloor> \<and> x < 2 ^ 32
      then Inr (holes (nat \<lfloor>x\<rfloor>))
      else Inl RangeError)"
| "new_Array x = Inl RangeError"

text \<open>\<^verbatim>\<open>a.fill(v)\<close>: every index below the length holds \<open>v\<close>.\<close>

definition fill :: "jsarray \<Rightarrow> number \<Rightarrow> jsarray" where
  "fill a v =
     a\<lparr>array_props := (\<lambda>k. case array_index k of
          None \<Rightarrow> array_props a k
        | Some i \<Rightarrow> if i < array_length a then Some v else array_props a k)\<rparr>"

text \<open>\<^verbatim>\<open>a[k] = v\<close>\<close>

definition array_set :: "jsarray \<Rightarrow> number \<Rightarrow> number \<Rightarrow> jsarray" where
  "array_set a k v =
     \<lparr>array_length = (case array_index k of
          None \<Rightarrow> array_length a
        | Some i \<Rightarrow> if array_length a \<le> i then i + 1 else array_length a),
      array_props = (array_props a)(k \<mapsto> v)\<rparr>"

text \<open>\<^verbatim>\<open>a[k]\<close>\<close>

definition array_get :: "jsarray \<Rightarrow> number \<Rightarrow> number option" where
  "array_get a k = array_props a k"

section \<open>The filter\<close>

text \<open>
  The five fields of the class. The field \<^verbatim>\<open>size\<close> is \<open>size_bf\<close> here, the name
  \<open>size\<close> being taken.
\<close>

record BloomFilter =
  expectedItems :: number
  falsePositiveRate :: number
  size_bf :: number
  hashCount :: number
  bitArray :: jsarray

text \<open>\<^verbatim>\<open>getSize(n, p)\<close>\<close>

definition getSize :: "number \<Rightarrow> number \<Rightarrow> number" where
  "getSize n p =
     (let m = js_div (js_neg (js_mul n (js_log p))) (js_pow (js_log (Fin 2)) 2)
      in js_ceil m)"

text \<open>\<^verbatim>\<open>getHashCount(m, n)\<close>\<close>

definition getHashCount :: "number \<Rightarrow> number \<Rightarrow> number" where
  "getHashCount m n =
     (let k = js_mul (js_div m n) (js_log (Fin 2))
      in js_ceil k)"

text \<open>
  The constructor. It checks nothing; the one statement of it that can fail is the
  allocation of the array, which comes last.
\<close>

definition new_BloomFilter :: "number \<Rightarrow> number \<Rightarrow> error + BloomFilter" where
  "new_BloomFilter n p =
     (let sz = getSize n p;
          hc = getHashCount sz n
      in case new_Array sz of
           Inl e \<Rightarrow> Inl e
         | Inr a \<Rightarrow> Inr \<lparr>expectedItems = n, falsePositiveRate = p, size_bf = sz,
                         hashCount = hc, bitArray = fill a (Fin 0)\<rparr>)"

section \<open>The hash function\<close>

text \<open>
  A string is its sequence of 16-bit code units. Every intermediate value of
  \<^verbatim>\<open>murmurhash3_32_gc\<close> passes through a bitwise operator before it is used again, and
  these work modulo \<open>2 ^ 32\<close>; every product stays below \<open>2 ^ 53\<close>. So the values are
  32-bit words.
\<close>

type_synonym jsstring = "16 word list"

text \<open>\<^verbatim>\<open>key.charCodeAt(i) & 0xff\<close>; beyond the end \<^verbatim>\<open>charCodeAt\<close> is \<^verbatim>\<open>NaN\<close>, and \<^verbatim>\<open>NaN & 0xff\<close> is \<open>0\<close>.\<close>

definition charCodeAt_ff :: "jsstring \<Rightarrow> nat \<Rightarrow> 32 word" where
  "charCodeAt_ff key i = (if i < length key then ucast (key ! i) AND 0xff else 0)"

text \<open>\<^verbatim>\<open>(((x & 0xffff) * c) + ((((x >>> 16) * c) & 0xffff) << 16)) & 0xffffffff\<close>\<close>

definition mul16 :: "32 word \<Rightarrow> 32 word \<Rightarrow> 32 word" where
  "mul16 x c =
     ((x AND 0xffff) * c + push_bit 16 ((drop_bit 16 x * c) AND 0xffff)) AND 0xffffffff"

definition c1 :: "32 word" where
  "c1 = 0xcc9e2d51"

definition c2 :: "32 word" where
  "c2 = 0x1b873593"

text \<open>The three statements that scramble \<open>k1\<close>.\<close>

definition mix_k1 :: "32 word \<Rightarrow> 32 word" where
  "mix_k1 k1 =
     (let k1 = mul16 k1 c1;
          k1 = push_bit 15 k1 OR drop_bit 17 k1;
          k1 = mul16 k1 c2
      in k1)"

text \<open>The \<^verbatim>\<open>while (i < bytes)\<close> loop: four code units a round.\<close>

function murmur_loop :: "jsstring \<Rightarrow> nat \<Rightarrow> nat \<Rightarrow> 32 word \<Rightarrow> 32 word" where
  "murmur_loop key bytes i h1 =
     (if i < bytes then
        let k1 = charCodeAt_ff key i
                 OR push_bit 8 (charCodeAt_ff key (i + 1))
                 OR push_bit 16 (charCodeAt_ff key (i + 2))
                 OR push_bit 24 (charCodeAt_ff key (i + 3));
            k1 = mix_k1 k1;
            h1 = h1 XOR k1;
            h1 = push_bit 13 h1 OR drop_bit 19 h1;
            h1b = mul16 h1 5;
            h1 = ((h1b AND 0xffff) + 0x6b64)
                 + push_bit 16 ((drop_bit 16 h1b + 0xe654) AND 0xffff)
        in murmur_loop key bytes (i + 4) h1
      else h1)"
  by pat_completeness auto
termination
  by (relation "measure (\<lambda>(key, bytes, i, h1). bytes - i)") auto

text \<open>The \<^verbatim>\<open>switch (remainder)\<close>, whose cases fall through.\<close>

definition murmur_tail :: "jsstring \<Rightarrow> nat \<Rightarrow> nat \<Rightarrow> 32 word \<Rightarrow> 32 word" where
  "murmur_tail key remainder i h1 =
     (let k1 = 0;
          k1 = (if remainder = 3 then k1 XOR push_bit 16 (charCodeAt_ff key (i + 2)) else k1);
          k1 = (if remainder = 3 \<or> remainder = 2
                then k1 XOR push_bit 8 (charCodeAt_ff key (i + 1)) else k1)
      in if remainder = 3 \<or> remainder = 2 \<or> remainder = 1
         then h1 XOR mix_k1 (k1 XOR charCodeAt_ff key i)
         else h1)"

text \<open>The statements after the switch.\<close>

definition murmur_final :: "jsstring \<Rightarrow> 32 word \<Rightarrow> 32 word" where
  "murmur_final key h1 =
     (let h1 = h1 XOR of_nat (length key);
          h1 = h1 XOR drop_bit 16 h1;
          h1 = mul16 h1 0x85ebca6b;
          h1 = h1 XOR drop_bit 13 h1;
          h1 = mul16 h1 0xc2b2ae35;
          h1 = h1 XOR drop_bit 16 h1
      in h1)"

text \<open>\<^verbatim>\<open>murmurhash3_32_gc(key, seed)\<close>; the result, \<^verbatim>\<open>h1 >>> 0\<close>, is unsigned.\<close>

definition murmurhash3_32_gc :: "jsstring \<Rightarrow> nat \<Rightarrow> nat" where
  "murmurhash3_32_gc key seed =
     (let remainder = length key mod 4;
          bytes = length key - remainder;
          h1 = murmur_loop key bytes 0 (of_nat seed);
          h1 = murmur_tail key remainder bytes h1
      in unat (murmur_final key h1))"

section \<open>Adding and checking\<close>

text \<open>
  \<^verbatim>\<open>i++\<close> on the loop counter. The counter is a double: up to \<open>2 ^ 53\<close> it counts, and
  there it stays, because \<open>2 ^ 53 + 1\<close> rounds back to \<open>2 ^ 53\<close>. A loop whose bound is
  larger, or infinite, never ends; the loops are therefore partial functions, \<open>None\<close>
  standing for a call that does not return.
\<close>

definition js_incr :: "nat \<Rightarrow> nat" where
  "js_incr i = (if i < 2 ^ 53 then i + 1 else i)"

text \<open>\<^verbatim>\<open>this.murmurhash3_32_gc(item, i) % this.size\<close>\<close>

definition hash_index :: "BloomFilter \<Rightarrow> jsstring \<Rightarrow> nat \<Rightarrow> number" where
  "hash_index f item i = js_mod (Fin (real (murmurhash3_32_gc item i))) (size_bf f)"

text \<open>The body of the loop of \<^verbatim>\<open>add\<close>: \<^verbatim>\<open>this.bitArray[hash] = 1\<close>.\<close>

definition set_bit :: "jsstring \<Rightarrow> nat \<Rightarrow> BloomFilter \<Rightarrow> BloomFilter" where
  "set_bit item i f = f\<lparr>bitArray := array_set (bitArray f) (hash_index f item i) (Fin 1)\<rparr>"

text \<open>The loop of \<^verbatim>\<open>add\<close>, from counter \<open>i\<close> on.\<close>

partial_function (option) add_from ::
    "jsstring \<Rightarrow> nat \<Rightarrow> BloomFilter \<Rightarrow> BloomFilter option" where
  "add_from item i f =
     (if js_lt (Fin (real i)) (hashCount f)
      then add_from item (js_incr i) (set_bit item i f)
      else Some f)"

definition add :: "jsstring \<Rightarrow> BloomFilter \<Rightarrow> BloomFilter option" where
  "add item f = add_from item 0 f"

text \<open>The test of the loop of \<^verbatim>\<open>check\<close>: \<^verbatim>\<open>this.bitArray[hash] === 0\<close>.\<close>

definition bit_is_zero :: "jsstring \<Rightarrow> nat \<Rightarrow> BloomFilter \<Rightarrow> bool" where
  "bit_is_zero item i f = (array_get (bitArray f) (hash_index f item i) = Some (Fin 0))"

text \<open>
  The loop of \<^verbatim>\<open>check\<close>. A method is a function from the object to the result and the
  object afterwards.
\<close>

partial_function (option) check_from ::
    "jsstring \<Rightarrow> nat \<Rightarrow> BloomFilter \<Rightarrow> (bool \<times> BloomFilter) option" where
  "check_from item i f =
     (if js_lt (Fin (real i)) (hashCount f)
      then if bit_is_zero item i f
           then Some (False, f)
           else check_from item (js_incr i) f
      else Some (True, f))"

definition check :: "jsstring \<Rightarrow> BloomFilter \<Rightarrow> (bool \<times> BloomFilter) option" where
  "check item f = check_from item 0 f"

text \<open>A sequence of \<^verbatim>\<open>add\<close> calls, one after the other.\<close>

fun add_all :: "jsstring list \<Rightarrow> BloomFilter \<Rightarrow> BloomFilter option" where
  "add_all [] f = Some f"
| "add_all (item # items) f =
     (case add item f of None \<Rightarrow> None | Some f' \<Rightarrow> add_all items f')"

text \<open>The keys of the bit array that hold \<open>1\<close>.\<close>

definition ones :: "BloomFilter \<Rightarrow> number set" where
  "ones f = {k. array_get (bitArray f) k = Some (Fin 1)}"

section \<open>Summaries of the loops\<close>

text \<open>
  How often \<^verbatim>\<open>for (let i = 0; i < h; i++)\<close> runs its body; \<open>None\<close> when the loop
  never ends.
\<close>

fun iterations :: "number \<Rightarrow> nat option" where
  "iterations (Fin x) = (if x \<le> 2 ^ 53 then Some (nat \<lceil>x\<rceil>) else None)"
| "iterations NaN = Some 0"
| "iterations PInf = None"
| "iterations NInf = Some 0"

text \<open>The bits of the seeds \<open>js\<close>, set one after the other, and tested one after the other.\<close>

definition set_bits :: "jsstring \<Rightarrow> nat list \<Rightarrow> BloomFilter \<Rightarrow> BloomFilter" where
  "set_bits item js f = fold (set_bit item) js f"

fun no_zero_bit :: "jsstring \<Rightarrow> nat list \<Rightarrow> BloomFilter \<Rightarrow> bool" where
  "no_zero_bit item [] f = True"
| "no_zero_bit item (j # js) f = (if bit_is_zero item j f then False else no_zero_bit item js f)"

text \<open>
  What the constructor establishes for a positive number of items and a rate between
  \<open>0\<close> and \<open>1\<close>, and every \<^verbatim>\<open>add\<close> keeps: the size is a positive array length, the
  array has that length, and the number of hash functions is between \<open>1\<close> and the size.
\<close>

definition well_formed :: "BloomFilter \<Rightarrow> bool" where
  "well_formed f =
     (\<exists>m k. 0 < m \<and> m < 2 ^ 32 \<and> size_bf f = Fin (real m) \<and> array_length (bitArray f) = m
        \<and> 0 < k \<and> k \<le> m \<and> hashCount f = Fin (real k))"

text \<open>
  The filter of \<^verbatim>\<open>new BloomFilter(1, 0.5)\<close>: two bits, two hash functions.
\<close>

definition filter_1_half :: BloomFilter where
  "filter_1_half =
     \<lparr>expectedItems = Fin 1, falsePositiveRate = Fin (1 / 2), size_bf = Fin 2,
      hashCount = Fin 2,
      bitArray = fill (holes 2) (Fin 0)\<rparr>"

text \<open>
  The filter of \<^verbatim>\<open>new BloomFilter(1, 0.49)\<close>, which has the same size and the same
  number of hash functions, and that of \<^verbatim>\<open>new BloomFilter(1, 0.5)\<close> after \<^verbatim>\<open>add("a")\<close>:
  both hash functions send \<^verbatim>\<open>"a"\<close> to bit \<open>0\<close>.
\<close>

definition filter_1_49 :: BloomFilter where
  "filter_1_49 = filter_1_half\<lparr>falsePositiveRate := Fin (49 / 100)\<rparr>"

definition filter_after_a :: BloomFilter where
  "filter_after_a =
     filter_1_half\<lparr>bitArray := array_set (bitArray filter_1_half) (Fin 0) (Fin 1)\<rparr>"

section \<open>The loops return what their summaries say\<close>

lemma js_lt_iterations:
  "iterations h = Some N \<Longrightarrow> js_lt (Fin (real i)) h = (i < N)"
  apply (cases h)
  apply (auto split: if_splits)
  apply linarith+
  done

lemma iterations_le: "iterations h = Some N \<Longrightarrow> N \<le> 2 ^ 53"
proof (cases h)
  case (Fin x)
  assume "iterations h = Some N"
  with Fin have x: "x \<le> 2 ^ 53" and N: "N = nat \<lceil>x\<rceil>"
    by (auto split: if_splits)
  from x have "\<lceil>x\<rceil> \<le> 2 ^ 53"
    by (simp add: ceiling_le_iff)
  with N show ?thesis
    by (simp add: nat_le_iff)
qed auto

lemma js_lt_diverges:
  "iterations h = None \<Longrightarrow> i \<le> 2 ^ 53 \<Longrightarrow> js_lt (Fin (real i)) h"
proof (cases h)
  case (Fin x)
  assume "iterations h = None" and i: "i \<le> 2 ^ 53"
  with Fin have x: "2 ^ 53 < x"
    by (auto split: if_splits)
  from i have "real i \<le> 2 ^ 53"
    by (metis of_nat_le_iff of_nat_numeral of_nat_power)
  with x Fin show ?thesis by simp
qed auto

lemma js_incr_below: "i < N \<Longrightarrow> N \<le> 2 ^ 53 \<Longrightarrow> js_incr i = Suc i"
  by (simp add: js_incr_def)

lemma js_incr_le: "i \<le> 2 ^ 53 \<Longrightarrow> js_incr i \<le> 2 ^ 53"
  by (simp add: js_incr_def)

lemma set_bit_fields [simp]:
  "expectedItems (set_bit item i f) = expectedItems f"
  "falsePositiveRate (set_bit item i f) = falsePositiveRate f"
  "size_bf (set_bit item i f) = size_bf f"
  "hashCount (set_bit item i f) = hashCount f"
  by (simp_all add: set_bit_def)

lemma set_bits_fields [simp]:
  "expectedItems (set_bits item js f) = expectedItems f"
  "falsePositiveRate (set_bits item js f) = falsePositiveRate f"
  "size_bf (set_bits item js f) = size_bf f"
  "hashCount (set_bits item js f) = hashCount f"
  by (induction js arbitrary: f; simp add: set_bits_def)+

lemma add_from_returns:
  assumes "iterations (hashCount f) = Some N"
  shows "i \<le> N \<Longrightarrow> add_from item i f = Some (set_bits item [i..<N] f)"
  using assms
proof (induction "N - i" arbitrary: i f)
  case 0
  then have "i = N" by simp
  with "0.prems" show ?case
    by (subst add_from.simps) (simp add: js_lt_iterations set_bits_def)
next
  case (Suc d)
  then have lt: "i < N" by simp
  have le: "N \<le> 2 ^ 53" using Suc.prems(2) by (rule iterations_le)
  have "add_from item i f = add_from item (Suc i) (set_bit item i f)"
    using lt le Suc.prems(2)
    by (subst add_from.simps) (simp add: js_lt_iterations js_incr_below)
  also have "\<dots> = Some (set_bits item [Suc i..<N] (set_bit item i f))"
    using Suc.hyps(2) lt Suc.prems(2) by (intro Suc.hyps(1)) simp_all
  also have "set_bits item [Suc i..<N] (set_bit item i f) = set_bits item [i..<N] f"
    using lt by (simp add: set_bits_def upt_conv_Cons)
  finally show ?case .
qed

lemma add_from_never_returns:
  "add_from item i f = Some g \<Longrightarrow> \<not> (iterations (hashCount f) = None \<and> i \<le> 2 ^ 53)"
proof (erule add_from.raw_induct [rotated,
    where P = "\<lambda>item i f g. \<not> (iterations (hashCount f) = None \<and> i \<le> 2 ^ 53)"])
  fix add_from' item i f g
  assume IH: "\<And>item i f g. add_from' item i f = Some g \<Longrightarrow>
                \<not> (iterations (hashCount f) = None \<and> i \<le> 2 ^ 53)"
    and body: "(if js_lt (Fin (real i)) (hashCount f)
                then add_from' item (js_incr i) (set_bit item i f) else Some f) = Some g"
  show "\<not> (iterations (hashCount f) = None \<and> i \<le> 2 ^ 53)"
  proof
    assume d: "iterations (hashCount f) = None \<and> i \<le> 2 ^ 53"
    then have "js_lt (Fin (real i)) (hashCount f)"
      by (simp add: js_lt_diverges)
    with body have "add_from' item (js_incr i) (set_bit item i f) = Some g"
      by simp
    then have "\<not> (iterations (hashCount (set_bit item i f)) = None \<and> js_incr i \<le> 2 ^ 53)"
      by (rule IH)
    with d show False
      by (auto simp: js_incr_def split: if_splits)
  qed
qed

lemma add_eq:
  "add item f =
     (case iterations (hashCount f) of
        None \<Rightarrow> None
      | Some N \<Rightarrow> Some (set_bits item [0..<N] f))"
proof (cases "iterations (hashCount f)")
  case None
  have "add_from item 0 f = None"
  proof (cases "add_from item 0 f")
    case (Some g)
    then show ?thesis
      using None by (auto dest: add_from_never_returns)
  qed simp
  with None show ?thesis
    by (simp add: add_def)
next
  case (Some N)
  then show ?thesis
    by (simp add: add_def add_from_returns)
qed

lemma check_from_state:
  "check_from item i f = Some r \<Longrightarrow> snd r = f"
  by (erule check_from.raw_induct [rotated, where P = "\<lambda>item i f r. snd r = f"])
    (auto split: if_splits)

lemma check_from_returns:
  assumes "iterations (hashCount f) = Some N"
  shows "i \<le> N \<Longrightarrow> check_from item i f = Some (no_zero_bit item [i..<N] f, f)"
proof (induction "N - i" arbitrary: i)
  case 0
  then have "i = N" by simp
  with assms show ?case
    by (subst check_from.simps) (simp add: js_lt_iterations)
next
  case (Suc d)
  then have lt: "i < N" by simp
  have le: "N \<le> 2 ^ 53" using assms by (rule iterations_le)
  have IH: "check_from item (Suc i) f = Some (no_zero_bit item [Suc i..<N] f, f)"
    using Suc.hyps(2) lt by (intro Suc.hyps(1)) simp_all
  show ?case
    using lt le assms IH
    by (subst check_from.simps) (simp add: js_lt_iterations js_incr_below upt_conv_Cons)
qed

lemma check_eq:
  "iterations (hashCount f) = Some N \<Longrightarrow> check item f = Some (no_zero_bit item [0..<N] f, f)"
  by (simp add: check_def check_from_returns)

section \<open>Setting bits\<close>

lemma bitArray_set_bit:
  "bitArray (set_bit x j f) = array_set (bitArray f) (hash_index f x j) (Fin 1)"
  by (simp add: set_bit_def)

lemma array_set_idem: "array_set (array_set a k v) k v = array_set a k v"
  by (auto simp: array_set_def split: option.splits)

lemma array_set_commute:
  "array_set (array_set a k v) k' v = array_set (array_set a k' v) k v"
  by (auto simp: array_set_def fun_upd_twist split: option.splits)

lemma hash_index_set_bit [simp]: "hash_index (set_bit x j f) item i = hash_index f item i"
  by (simp add: hash_index_def)

lemma hash_index_set_bits [simp]: "hash_index (set_bits x js f) item i = hash_index f item i"
  by (simp add: hash_index_def)

lemma set_bit_idem: "set_bit item i (set_bit item i f) = set_bit item i f"
  by (simp add: set_bit_def array_set_idem hash_index_def)

lemma set_bit_commute:
  "set_bit x i (set_bit y j f) = set_bit y j (set_bit x i f)"
  by (simp add: set_bit_def hash_index_def array_set_commute)

lemma set_bit_set_bits: "set_bit x i (set_bits y js f) = set_bits y js (set_bit x i f)"
  by (induction js arbitrary: f) (simp_all add: set_bits_def set_bit_commute)

lemma set_bits_idem: "set_bits item js (set_bits item js f) = set_bits item js f"
proof (induction js arbitrary: f)
  case Nil
  show ?case by (simp add: set_bits_def)
next
  case (Cons j js)
  have "set_bits item (j # js) (set_bits item (j # js) f)
      = set_bits item js (set_bit item j (set_bits item js (set_bit item j f)))"
    by (simp add: set_bits_def)
  also have "\<dots> = set_bits item js (set_bits item js (set_bit item j (set_bit item j f)))"
    by (simp add: set_bit_set_bits)
  also have "\<dots> = set_bits item js (set_bit item j f)"
    by (simp add: set_bit_idem Cons.IH)
  finally show ?case by (simp add: set_bits_def)
qed

lemma ones_set_bit: "ones f \<subseteq> ones (set_bit item i f)"
  by (auto simp: ones_def set_bit_def array_set_def array_get_def)

lemma ones_set_bits: "ones f \<subseteq> ones (set_bits item js f)"
proof (induction js arbitrary: f)
  case Nil
  show ?case by (simp add: set_bits_def)
next
  case (Cons j js)
  have "ones f \<subseteq> ones (set_bit item j f)" by (rule ones_set_bit)
  also have "\<dots> \<subseteq> ones (set_bits item js (set_bit item j f))" by (rule Cons.IH)
  finally show ?case by (simp add: set_bits_def)
qed

lemma bit_is_zero_set_bit: "bit_is_zero item i (set_bit x j f) \<Longrightarrow> bit_is_zero item i f"
  by (auto simp: bit_is_zero_def bitArray_set_bit array_set_def array_get_def split: if_splits)

lemma bit_is_zero_set_bits: "bit_is_zero item i (set_bits x js f) \<Longrightarrow> bit_is_zero item i f"
proof (induction js arbitrary: f)
  case Nil
  then show ?case by (simp add: set_bits_def)
next
  case (Cons j js)
  from Cons.prems have "bit_is_zero item i (set_bits x js (set_bit x j f))"
    by (simp add: set_bits_def)
  then have "bit_is_zero item i (set_bit x j f)" by (rule Cons.IH)
  then show ?case by (rule bit_is_zero_set_bit)
qed

lemma no_zero_bit_iff: "no_zero_bit item js f = (\<forall>j \<in> set js. \<not> bit_is_zero item j f)"
  by (induction js) auto

lemma no_zero_bit_set_bits: "no_zero_bit item js f \<Longrightarrow> no_zero_bit item js (set_bits x ks f)"
  by (auto simp: no_zero_bit_iff dest: bit_is_zero_set_bits)

lemma bit_set_bit_self: "\<not> bit_is_zero item i (set_bit item i f)"
  by (simp add: bit_is_zero_def bitArray_set_bit array_set_def array_get_def)

lemma bit_set_bits_self: "j \<in> set js \<Longrightarrow> \<not> bit_is_zero item j (set_bits item js f)"
proof (induction js arbitrary: f)
  case Nil
  then show ?case by simp
next
  case (Cons k js)
  show ?case
  proof (cases "j = k")
    case True
    have "\<not> bit_is_zero item k (set_bit item k (set_bits item js f))"
      by (rule bit_set_bit_self)
    then have "\<not> bit_is_zero item k (set_bits item js (set_bit item k f))"
      by (simp add: set_bit_set_bits)
    then show ?thesis
      using True by (simp add: set_bits_def)
  next
    case False
    with Cons.prems have "j \<in> set js" by simp
    then show ?thesis
      using Cons.IH by (simp add: set_bits_def)
  qed
qed

lemma no_zero_bit_set_bits_self: "no_zero_bit item js (set_bits item js f)"
  by (simp add: no_zero_bit_iff bit_set_bits_self)

lemma check_after_add: "add item f = Some g \<Longrightarrow> check item g = Some (True, g)"
  by (auto simp: add_eq check_eq no_zero_bit_set_bits_self split: option.splits)

lemma add_idem: "add item f = Some g \<Longrightarrow> add item g = Some g"
  by (auto simp: add_eq set_bits_idem split: option.splits)

section \<open>The sizing formulas\<close>

lemma ln2_gt_half: "1 / 2 < ln (2::real)"
proof -
  have "exp (1 / 2 :: real) * exp (1 / 2) = exp 1"
    by (simp flip: exp_add)
  moreover have "exp (1::real) \<le> 3" by (rule exp_le)
  ultimately have sq: "exp (1 / 2 :: real) * exp (1 / 2) < 2 * 2" by simp
  have "exp (1 / 2 :: real) < 2"
  proof (rule ccontr)
    assume "\<not> exp (1 / 2 :: real) < 2"
    then have "2 \<le> exp (1 / 2 :: real)" by simp
    then have "2 * 2 \<le> exp (1 / 2 :: real) * exp (1 / 2)"
      by (intro mult_mono) simp_all
    with sq show False by simp
  qed
  then have "ln (exp (1 / 2 :: real)) < ln 2"
    by (subst ln_less_cancel_iff) simp_all
  then show ?thesis by simp
qed

lemma ln2_pos: "0 < ln (2::real)"
  by simp

lemma getSize_Fin:
  assumes "0 < (p::real)"
  shows "getSize (Fin n) (Fin p) = Fin (of_int \<lceil>- (n * ln p) / (ln 2)\<^sup>2\<rceil>)"
  using assms by (simp add: getSize_def)

lemma getHashCount_Fin:
  assumes "n \<noteq> 0"
  shows "getHashCount (Fin m) (Fin n) = Fin (of_int \<lceil>m / n * ln 2\<rceil>)"
  using assms by (simp add: getHashCount_def)

lemma size_ge_1:
  assumes "0 < (n::real)" "0 < (p::real)" "p < 1"
  shows "1 \<le> \<lceil>- (n * ln p) / (ln 2)\<^sup>2\<rceil>"
proof -
  from assms have "ln p < 0" by simp
  with assms have "0 < - (n * ln p)"
    by (simp add: mult_pos_neg)
  then have "0 < - (n * ln p) / (ln 2)\<^sup>2"
    by (intro divide_pos_pos) simp_all
  then show ?thesis by (simp add: ceiling_le_iff less_ceiling_iff)
qed

lemma count_ge_1:
  assumes "0 < (m::real)" "0 < (n::real)"
  shows "1 \<le> \<lceil>m / n * ln 2\<rceil>"
proof -
  from assms have "0 < m / n * ln 2" by simp
  then show ?thesis by (simp add: less_ceiling_iff)
qed

lemma count_le_size:
  assumes "1 \<le> (n::real)"
  shows "\<lceil>real_of_int M / n * ln 2\<rceil> \<le> max M 0"
proof (cases "0 \<le> M")
  case True
  have "real_of_int M * 1 \<le> real_of_int M * n"
    using assms True by (intro mult_left_mono) simp_all
  then have "real_of_int M / n \<le> real_of_int M"
    using assms by (simp add: divide_le_eq)
  moreover have "real_of_int M / n * ln 2 \<le> real_of_int M / n * 1"
    using assms True ln_2_less_1 by (intro mult_left_mono) simp_all
  ultimately have "real_of_int M / n * ln 2 \<le> real_of_int M" by simp
  then show ?thesis using True by (simp add: ceiling_le_iff)
next
  case False
  then have "real_of_int M / n * ln 2 \<le> 0"
    using assms by (simp add: mult_le_0_iff divide_le_0_iff)
  then show ?thesis using False by (simp add: ceiling_le_iff)
qed

lemma js_mod_nat:
  assumes "0 < m"
  shows "js_mod (Fin (real h)) (Fin (real m)) = Fin (real (h mod m))"
proof -
  have "trunc (real h / real m) = real (h div m)"
    by (simp add: trunc_def floor_divide_of_nat_eq)
  moreover have "real h - real m * real (h div m) = real (h mod m)"
    by (metis add_diff_cancel_left' mult_div_mod_eq of_nat_add of_nat_mult)
  ultimately show ?thesis using assms by simp
qed

lemma array_index_nat: "k < 2 ^ 32 - 1 \<Longrightarrow> array_index (Fin (real k)) = Some k"
proof -
  assume "k < 2 ^ 32 - 1"
  then have "real k < real (2 ^ 32 - 1)"
    by (simp only: of_nat_less_iff)
  then show ?thesis by simp
qed

section \<open>Constructed filters\<close>

lemma new_BloomFilter_valid:
  fixes n :: int and p :: real
  assumes "0 < n" "0 < p" "p < 1"
  defines "M \<equiv> \<lceil>- (of_int n * ln p) / (ln 2)\<^sup>2\<rceil>"
  shows "new_BloomFilter (Fin (of_int n)) (Fin p) =
     (if M < 2 ^ 32
      then Inr \<lparr>expectedItems = Fin (of_int n), falsePositiveRate = Fin p,
                size_bf = Fin (of_int M),
                hashCount = Fin (of_int \<lceil>real_of_int M / real_of_int n * ln 2\<rceil>),
                bitArray = fill (holes (nat M)) (Fin 0)\<rparr>
      else Inl RangeError)"
proof -
  have M: "1 \<le> M"
    unfolding M_def using assms(1-3) by (intro size_ge_1) simp_all
  have sz: "getSize (Fin (of_int n)) (Fin p) = Fin (of_int M)"
    unfolding M_def using assms(2) by (rule getSize_Fin)
  have hc: "getHashCount (Fin (of_int M)) (Fin (of_int n)) = Fin (of_int \<lceil>real_of_int M / real_of_int n * ln 2\<rceil>)"
    using assms(1) by (intro getHashCount_Fin) simp
  have lt: "(real_of_int M < 2 ^ 32) = (M < 2 ^ 32)"
    by (metis of_int_less_iff of_int_numeral of_int_power)
  show ?thesis
    using M by (simp add: new_BloomFilter_def sz hc lt)
qed

lemma new_BloomFilter_well_formed:
  fixes n :: int and p :: real
  assumes "0 < n" "0 < p" "p < 1"
    and new: "new_BloomFilter (Fin (of_int n)) (Fin p) = Inr f"
  shows "well_formed f"
proof -
  define M where "M = \<lceil>- (of_int n * ln p) / (ln 2)\<^sup>2\<rceil>"
  define K where "K = \<lceil>real_of_int M / real_of_int n * ln 2\<rceil>"
  have M: "1 \<le> M"
    unfolding M_def using assms(1-3) by (intro size_ge_1) simp_all
  have K: "1 \<le> K"
    unfolding K_def using M assms(1) by (intro count_ge_1) simp_all
  have "K \<le> max M 0"
    unfolding K_def using assms(1) by (intro count_le_size) simp
  with M have KM: "K \<le> M" by simp
  from new have lt: "M < 2 ^ 32" and f: "f = \<lparr>expectedItems = Fin (of_int n), falsePositiveRate = Fin p,
                size_bf = Fin (of_int M), hashCount = Fin (of_int K),
                bitArray = fill (holes (nat M)) (Fin 0)\<rparr>"
    unfolding M_def K_def
    by (simp_all add: new_BloomFilter_valid [OF assms(1-3)] split: if_splits)
  have "0 < nat M" "nat M < 2 ^ 32" "0 < nat K" "nat K \<le> nat M"
    using M K KM lt by simp_all
  moreover have "size_bf f = Fin (real (nat M))" "hashCount f = Fin (real (nat K))"
    "array_length (bitArray f) = nat M"
    using M K by (simp_all add: f fill_def holes_def)
  ultimately show ?thesis
    unfolding well_formed_def by blast
qed

lemma well_formed_iterations:
  assumes "well_formed f"
  obtains k where "iterations (hashCount f) = Some k" "0 < k"
proof -
  from assms obtain m k where m: "m < 2 ^ 32" and k: "0 < k" "k \<le> m" "hashCount f = Fin (real k)"
    unfolding well_formed_def by blast
  from m k(2) have "k \<le> 2 ^ 53" by simp
  then have "real k \<le> 2 ^ 53"
    by (metis of_nat_le_iff of_nat_numeral of_nat_power)
  with k have "iterations (hashCount f) = Some k" by simp
  from this k(1) show ?thesis by (rule that)
qed

lemma well_formed_hash_index:
  assumes "well_formed f"
  shows "\<exists>j. hash_index f item i = Fin (real j) \<and> j < array_length (bitArray f)
           \<and> size_bf f = Fin (real (array_length (bitArray f)))"
proof -
  from assms obtain m where m: "0 < m" "size_bf f = Fin (real m)" "array_length (bitArray f) = m"
    unfolding well_formed_def by blast
  have "hash_index f item i = Fin (real (murmurhash3_32_gc item i mod m))"
    unfolding hash_index_def m(2) using m(1) by (rule js_mod_nat)
  with m show ?thesis by simp
qed

lemma array_length_set:
  "k = Fin (real j) \<Longrightarrow> j < array_length a \<Longrightarrow> array_length (array_set a k v) = array_length a"
  by (cases "array_index k") (auto simp: array_set_def split: if_splits)

lemma well_formed_set_bit: "well_formed f \<Longrightarrow> well_formed (set_bit item i f)"
proof -
  assume wf: "well_formed f"
  then obtain j where "hash_index f item i = Fin (real j)" "j < array_length (bitArray f)"
    using well_formed_hash_index by blast
  then have "array_length (bitArray (set_bit item i f)) = array_length (bitArray f)"
    by (simp add: bitArray_set_bit array_length_set)
  with wf show ?thesis
    by (simp add: well_formed_def)
qed

lemma well_formed_set_bits: "well_formed f \<Longrightarrow> well_formed (set_bits item js f)"
  by (induction js arbitrary: f) (simp_all add: set_bits_def well_formed_set_bit)

lemma well_formed_add:
  assumes "well_formed f"
  obtains g where "add item f = Some g" "well_formed g"
proof -
  from assms obtain k where "iterations (hashCount f) = Some k"
    by (rule well_formed_iterations)
  then have "add item f = Some (set_bits item [0..<k] f)"
    by (simp add: add_eq)
  moreover have "well_formed (set_bits item [0..<k] f)"
    using assms by (rule well_formed_set_bits)
  ultimately show ?thesis by (rule that)
qed

lemma well_formed_add_all:
  assumes "well_formed f"
  shows "\<exists>g. add_all items f = Some g \<and> well_formed g"
  using assms
proof (induction items arbitrary: f)
  case Nil
  then show ?case by simp
next
  case (Cons item items)
  from Cons.prems obtain g where g: "add item f = Some g" "well_formed g"
    by (rule well_formed_add)
  from Cons.IH [OF g(2)] g(1) show ?case by simp
qed

lemma well_formed_check:
  assumes "well_formed f"
  shows "\<exists>b. check item f = Some (b, f)"
proof -
  from assms obtain k where "iterations (hashCount f) = Some k"
    by (rule well_formed_iterations)
  then show ?thesis by (simp add: check_eq)
qed

lemma set_bit_length:
  assumes "size_bf f = Fin (real m)" "0 < m" "array_length (bitArray f) = m"
  shows "array_length (bitArray (set_bit item i f)) = m"
proof -
  have "hash_index f item i = Fin (real (murmurhash3_32_gc item i mod m))"
    unfolding hash_index_def assms(1) using assms(2) by (rule js_mod_nat)
  moreover have "murmurhash3_32_gc item i mod m < array_length (bitArray f)"
    using assms by simp
  ultimately show ?thesis
    using assms(3) by (simp add: bitArray_set_bit array_length_set)
qed

lemma set_bits_length:
  assumes "size_bf f = Fin (real m)" "0 < m" "array_length (bitArray f) = m"
  shows "array_length (bitArray (set_bits item js f)) = m"
  using assms
proof (induction js arbitrary: f)
  case Nil
  then show ?case by (simp add: set_bits_def)
next
  case (Cons j js)
  have "array_length (bitArray (set_bits item js (set_bit item j f))) = m"
    using Cons.prems by (intro Cons.IH set_bit_length) simp_all
  then show ?case by (simp add: set_bits_def)
qed

lemma ceiling_inverse_ln2: "\<lceil>1 / ln (2::real)\<rceil> = 2"
proof (rule ceiling_unique)
  have "1 * ln (2::real) < 1" using ln_2_less_1 by simp
  then have "1 < 1 / ln (2::real)"
    by (subst pos_less_divide_eq) simp_all
  then show "real_of_int 2 - 1 < 1 / ln 2" by simp
  have "1 \<le> 2 * ln (2::real)" using ln2_gt_half by simp
  then have "1 / ln (2::real) \<le> 2"
    by (subst pos_divide_le_eq) simp_all
  then show "1 / ln 2 \<le> real_of_int 2" by simp
qed

lemma ceiling_2_ln2: "\<lceil>2 * ln (2::real)\<rceil> = 2"
proof (rule ceiling_unique)
  show "real_of_int 2 - 1 < 2 * ln 2" using ln2_gt_half by simp
  show "2 * ln 2 \<le> real_of_int 2" using ln_2_less_1 by simp
qed

lemma getSize_1_half: "getSize (Fin 1) (Fin (1 / 2)) = Fin 2"
proof -
  have "ln (1 / 2 :: real) = - ln 2"
    by (simp add: ln_div)
  then have "- (1 * ln (1 / 2 :: real)) / (ln 2)\<^sup>2 = 1 / ln 2"
    by (simp add: power2_eq_square)
  moreover have "getSize (Fin 1) (Fin (1 / 2)) = Fin (of_int \<lceil>- (1 * ln (1 / 2 :: real)) / (ln 2)\<^sup>2\<rceil>)"
    by (rule getSize_Fin) simp
  ultimately show ?thesis
    by (simp only: ceiling_inverse_ln2) simp
qed

lemma getHashCount_2_1: "getHashCount (Fin 2) (Fin 1) = Fin 2"
proof -
  have "getHashCount (Fin 2) (Fin 1) = Fin (of_int \<lceil>2 / 1 * ln (2::real)\<rceil>)"
    by (rule getHashCount_Fin) simp
  also have "2 / 1 * ln (2::real) = 2 * ln 2" by simp
  finally show ?thesis
    by (simp only: ceiling_2_ln2) simp
qed

lemma new_1_half: "new_BloomFilter (Fin 1) (Fin (1 / 2)) = Inr filter_1_half"
  by (simp add: new_BloomFilter_def getSize_1_half getHashCount_2_1 filter_1_half_def Let_def)

section \<open>A fresh filter, and what an \<^verbatim>\<open>add\<close> leaves as it was\<close>

lemma array_get_fill:
  "j < array_length a \<Longrightarrow> j < 2 ^ 32 - 1 \<Longrightarrow> array_get (fill a v) (Fin (real j)) = Some v"
  by (simp add: array_get_def fill_def array_index_nat)

lemma new_BloomFilter_fresh:
  fixes n :: int and p :: real
  assumes "0 < n" "0 < p" "p < 1"
    and new: "new_BloomFilter (Fin (of_int n)) (Fin p) = Inr f"
  shows "bit_is_zero item i f"
proof -
  define M where "M = \<lceil>- (of_int n * ln p) / (ln 2)\<^sup>2\<rceil>"
  from new have lt: "M < 2 ^ 32" and b: "bitArray f = fill (holes (nat M)) (Fin 0)"
    unfolding M_def
    by (auto simp: new_BloomFilter_valid [OF assms(1-3)] split: if_splits)
  have "well_formed f"
    using assms by (rule new_BloomFilter_well_formed)
  then obtain j where j: "hash_index f item i = Fin (real j)" "j < array_length (bitArray f)"
    using well_formed_hash_index by blast
  from j(2) b have jM: "j < nat M" by (simp add: fill_def holes_def)
  with lt have "j < 2 ^ 32 - 1" by simp
  with jM show ?thesis
    by (simp add: bit_is_zero_def j(1) b array_get_fill holes_def)
qed

lemma check_zero_bit:
  assumes "iterations (hashCount f) = Some k" "0 < k" "bit_is_zero item 0 f"
  shows "check item f = Some (False, f)"
proof -
  from assms(2) have "[0..<k] = 0 # [1..<k]"
    by (simp add: upt_conv_Cons)
  with assms(1,3) show ?thesis
    by (simp add: check_eq)
qed

lemma new_BloomFilter_check:
  fixes n :: int and p :: real
  assumes "0 < n" "0 < p" "p < 1"
    and new: "new_BloomFilter (Fin (of_int n)) (Fin p) = Inr f"
  shows "check item f = Some (False, f)"
proof -
  have "well_formed f"
    using assms by (rule new_BloomFilter_well_formed)
  then obtain k where "iterations (hashCount f) = Some k" "0 < k"
    by (rule well_formed_iterations)
  moreover have "bit_is_zero item 0 f"
    using assms by (rule new_BloomFilter_fresh)
  ultimately show ?thesis by (rule check_zero_bit)
qed

lemma add_fields:
  assumes "add item f = Some g"
  shows "expectedItems g = expectedItems f" "falsePositiveRate g = falsePositiveRate f"
    "size_bf g = size_bf f" "hashCount g = hashCount f"
  using assms by (auto simp: add_eq split: option.splits)

lemma add_ones: "add item f = Some g \<Longrightarrow> ones f \<subseteq> ones g"
  by (auto simp: add_eq split: option.splits intro: ones_set_bits [THEN subsetD])

lemma add_check_stays:
  assumes "add item f = Some g" "check x f = Some (True, f)"
  shows "check x g = Some (True, g)"
proof -
  from assms(1) obtain k where k: "iterations (hashCount f) = Some k"
    and g: "g = set_bits item [0..<k] f"
    by (auto simp: add_eq split: option.splits)
  from assms(2) k have "no_zero_bit x [0..<k] f"
    by (simp add: check_eq)
  then have "no_zero_bit x [0..<k] g"
    unfolding g by (rule no_zero_bit_set_bits)
  moreover have "iterations (hashCount g) = Some k"
    using k by (simp add: g)
  ultimately show ?thesis by (simp add: check_eq)
qed

lemma add_all_ones: "add_all items f = Some g \<Longrightarrow> ones f \<subseteq> ones g"
proof (induction items arbitrary: f)
  case Nil
  then show ?case by simp
next
  case (Cons item items)
  then obtain f' where f': "add item f = Some f'" "add_all items f' = Some g"
    by (auto split: option.splits)
  have "ones f \<subseteq> ones f'" using f'(1) by (rule add_ones)
  also have "\<dots> \<subseteq> ones g" using f'(2) by (rule Cons.IH)
  finally show ?case .
qed

lemma add_all_check_stays:
  "add_all items f = Some g \<Longrightarrow> check x f = Some (True, f) \<Longrightarrow> check x g = Some (True, g)"
proof (induction items arbitrary: f)
  case Nil
  then show ?case by simp
next
  case (Cons item items)
  then obtain f' where f': "add item f = Some f'" "add_all items f' = Some g"
    by (auto split: option.splits)
  have "check x f' = Some (True, f')"
    using f'(1) Cons.prems(2) by (rule add_check_stays)
  with f'(2) show ?case by (rule Cons.IH)
qed

lemma add_length:
  assumes "size_bf f = Fin (real m)" "0 < m" "array_length (bitArray f) = m"
    and "add item f = Some g"
  shows "array_length (bitArray g) = m"
  using assms by (auto simp: add_eq set_bits_length split: option.splits)



section \<open>A run on the two-bit filter\<close>

text \<open>
  The hash of \<^verbatim>\<open>"a"\<close> with seed \<open>0\<close> is the value every implementation of MurmurHash3
  gives for it.
\<close>

lemma murmur_loop_0: "murmur_loop key 0 i h1 = h1"
  by simp

lemma murmurhash_a_0: "murmurhash3_32_gc [0x61] 0 = 0x3c2569b2"
  unfolding murmurhash3_32_gc_def Let_def
  by (simp add: murmur_tail_def murmur_final_def mix_k1_def mul16_def c1_def c2_def
      charCodeAt_ff_def Let_def murmur_loop_0 del: murmur_loop.simps)

lemma murmurhash_a_1: "murmurhash3_32_gc [0x61] (Suc 0) = 0x588adce8"
  unfolding murmurhash3_32_gc_def Let_def
  by (simp add: murmur_tail_def murmur_final_def mix_k1_def mul16_def c1_def c2_def
      charCodeAt_ff_def Let_def murmur_loop_0 del: murmur_loop.simps)

lemma hash_index_a:
  "hash_index filter_1_half [0x61] 0 = Fin 0" "hash_index filter_1_half [0x61] (Suc 0) = Fin 0"
proof -
  have s: "size_bf filter_1_half = Fin (real 2)"
    by (simp add: filter_1_half_def)
  show "hash_index filter_1_half [0x61] 0 = Fin 0"
    unfolding hash_index_def s by (subst js_mod_nat) (simp_all add: murmurhash_a_0)
  show "hash_index filter_1_half [0x61] (Suc 0) = Fin 0"
    unfolding hash_index_def s by (subst js_mod_nat) (simp_all add: murmurhash_a_1)
qed

lemma add_a: "add [0x61] filter_1_half = Some filter_after_a"
proof -
  have "iterations (hashCount filter_1_half) = Some 2"
    by (simp add: filter_1_half_def)
  then have "add [0x61] filter_1_half = Some (set_bits [0x61] [0..<2] filter_1_half)"
    by (simp add: add_eq)
  moreover have "[0..<2] = [0, 1::nat]"
    by (simp add: upt_conv_Cons)
  moreover have "set_bit [0x61] 0 filter_1_half = filter_after_a"
    by (simp add: set_bit_def hash_index_a filter_after_a_def)
  moreover have "hash_index filter_after_a [0x61] (Suc 0) = Fin 0"
    using hash_index_a(2) by (simp add: hash_index_def filter_after_a_def)
  then have "set_bit [0x61] (Suc 0) filter_after_a = filter_after_a"
    by (simp add: set_bit_def filter_after_a_def array_set_idem)
  ultimately show ?thesis
    by (simp add: set_bits_def)
qed


section \<open>What a run depends on\<close>

text \<open>
  \<^verbatim>\<open>add\<close> and \<^verbatim>\<open>check\<close> read the size, the number of hash functions and the bit array
  of the filter, and nothing else of it.
\<close>

lemma set_bit_agree:
  assumes "size_bf f1 = size_bf f2" "bitArray f1 = bitArray f2"
  shows "bitArray (set_bit item i f1) = bitArray (set_bit item i f2)"
  using assms by (simp add: bitArray_set_bit hash_index_def)

lemma set_bits_agree:
  assumes "size_bf f1 = size_bf f2" "bitArray f1 = bitArray f2"
  shows "bitArray (set_bits item js f1) = bitArray (set_bits item js f2)"
  using assms
proof (induction js arbitrary: f1 f2)
  case Nil
  then show ?case by (simp add: set_bits_def)
next
  case (Cons j js)
  have "bitArray (set_bits item js (set_bit item j f1)) = bitArray (set_bits item js (set_bit item j f2))"
    using Cons.prems by (intro Cons.IH set_bit_agree) simp_all
  then show ?case by (simp add: set_bits_def)
qed

lemma add_agree:
  assumes "size_bf f1 = size_bf f2" "hashCount f1 = hashCount f2" "bitArray f1 = bitArray f2"
    and "add item f1 = Some g1"
  shows "\<exists>g2. add item f2 = Some g2 \<and> size_bf g1 = size_bf g2 \<and> hashCount g1 = hashCount g2
           \<and> bitArray g1 = bitArray g2"
proof -
  from assms(4) obtain k where k: "iterations (hashCount f1) = Some k"
    and g1: "g1 = set_bits item [0..<k] f1"
    by (auto simp: add_eq split: option.splits)
  from k assms(2) have "add item f2 = Some (set_bits item [0..<k] f2)"
    by (simp add: add_eq)
  moreover have "bitArray g1 = bitArray (set_bits item [0..<k] f2)"
    unfolding g1 using assms(1,3) by (rule set_bits_agree)
  ultimately show ?thesis
    using assms(1,2) by (simp add: g1)
qed

lemma add_all_agree:
  assumes "size_bf f1 = size_bf f2" "hashCount f1 = hashCount f2" "bitArray f1 = bitArray f2"
    and "add_all items f1 = Some g1"
  shows "\<exists>g2. add_all items f2 = Some g2 \<and> size_bf g1 = size_bf g2 \<and> hashCount g1 = hashCount g2
           \<and> bitArray g1 = bitArray g2"
  using assms
proof (induction items arbitrary: f1 f2)
  case Nil
  then show ?case by simp
next
  case (Cons item items)
  from Cons.prems(4) obtain h1 where h1: "add item f1 = Some h1" "add_all items h1 = Some g1"
    by (auto split: option.splits)
  from add_agree [OF Cons.prems(1-3) h1(1)] obtain h2 where h2: "add item f2 = Some h2"
    "size_bf h1 = size_bf h2" "hashCount h1 = hashCount h2" "bitArray h1 = bitArray h2"
    by blast
  from Cons.IH [OF h2(2-4) h1(2)] h2(1) show ?case by simp
qed

lemma bit_is_zero_agree:
  fixes f1 f2 :: BloomFilter
  shows "size_bf f1 = size_bf f2 \<Longrightarrow> bitArray f1 = bitArray f2
     \<Longrightarrow> bit_is_zero item i f1 = bit_is_zero item i f2"
  by (simp add: bit_is_zero_def hash_index_def)

lemma check_from_agree:
  "check_from q i f1 = Some r \<Longrightarrow>
     \<forall>f2::BloomFilter. size_bf f1 = size_bf f2 \<and> hashCount f1 = hashCount f2 \<and> bitArray f1 = bitArray f2
       \<longrightarrow> check_from q i f2 = Some (fst r, f2)"
proof (erule check_from.raw_induct [rotated,
    where P = "\<lambda>q i f1 r. \<forall>f2::BloomFilter. size_bf f1 = size_bf f2 \<and> hashCount f1 = hashCount f2
        \<and> bitArray f1 = bitArray f2 \<longrightarrow> check_from q i f2 = Some (fst r, f2)"])
  fix check_from' q i f1 r
  assume IH: "\<And>q i f1 r. check_from' q i f1 = Some r \<Longrightarrow>
      \<forall>f2::BloomFilter. size_bf f1 = size_bf f2 \<and> hashCount f1 = hashCount f2 \<and> bitArray f1 = bitArray f2
        \<longrightarrow> check_from q i f2 = Some (fst r, f2)"
    and body: "(if js_lt (Fin (real i)) (hashCount f1)
                then if bit_is_zero q i f1 then Some (False, f1) else check_from' q (js_incr i) f1
                else Some (True, f1)) = Some r"
  show "\<forall>f2::BloomFilter. size_bf f1 = size_bf f2 \<and> hashCount f1 = hashCount f2 \<and> bitArray f1 = bitArray f2
        \<longrightarrow> check_from q i f2 = Some (fst r, f2)"
  proof (intro allI impI)
    fix f2 :: BloomFilter
    assume a: "size_bf f1 = size_bf f2 \<and> hashCount f1 = hashCount f2 \<and> bitArray f1 = bitArray f2"
    then have z: "bit_is_zero q i f2 = bit_is_zero q i f1"
      by (intro bit_is_zero_agree) simp_all
    from a have hc: "hashCount f2 = hashCount f1" by simp
    have unfold: "check_from q i f2 =
        (if js_lt (Fin (real i)) (hashCount f1)
         then if bit_is_zero q i f1 then Some (False, f2) else check_from q (js_incr i) f2
         else Some (True, f2))"
      by (subst check_from.simps) (simp only: hc z)
    show "check_from q i f2 = Some (fst r, f2)"
    proof (cases "js_lt (Fin (real i)) (hashCount f1)")
      case False
      with body have "r = (True, f1)" by simp
      with False show ?thesis by (simp only: unfold) simp
    next
      case lt: True
      show ?thesis
      proof (cases "bit_is_zero q i f1")
        case True
        with lt body have "r = (False, f1)" by simp
        with lt True show ?thesis by (simp only: unfold) simp
      next
        case False
        with lt body have "check_from' q (js_incr i) f1 = Some r" by simp
        from IH [OF this] a have "check_from q (js_incr i) f2 = Some (fst r, f2)" by blast
        with lt False show ?thesis by (simp only: unfold) simp
      qed
    qed
  qed
qed

lemma check_agree:
  fixes f1 f2 :: BloomFilter
  assumes "size_bf f1 = size_bf f2" "hashCount f1 = hashCount f2" "bitArray f1 = bitArray f2"
  shows "map_option fst (check q f1) = map_option fst (check q f2)"
proof (cases "check q f1")
  case (Some r)
  then have "check_from q 0 f1 = Some r" by (simp add: check_def)
  from check_from_agree [OF this] assms have "check q f2 = Some (fst r, f2)"
    by (simp add: check_def)
  with Some show ?thesis by simp
next
  case None
  show ?thesis
  proof (cases "check q f2")
    case (Some r)
    then have "check_from q 0 f2 = Some r" by (simp add: check_def)
    from check_from_agree [OF this] assms have "check q f1 = Some (fst r, f1)"
      by (simp add: check_def)
    with None show ?thesis by simp
  next
    case n2: None
    with None show ?thesis by simp
  qed
qed

lemma new_BloomFilter_bitArray:
  assumes "new_BloomFilter n p = Inr f1" "new_BloomFilter n' p' = Inr f2"
    and "size_bf f1 = size_bf f2"
  shows "bitArray f1 = bitArray f2"
  using assms by (auto simp: new_BloomFilter_def Let_def split: sum.splits)

lemma ln2_gt_three_fifths: "3 / 5 < ln (2::real)"
proof -
  have "exp (1 / 5 :: real) \<le> 1 + 1 / 5 + (1 / 5)\<^sup>2"
    by (rule exp_bound) simp_all
  then have b: "exp (1 / 5 :: real) \<le> 31 / 25"
    by (simp add: power2_eq_square)
  have "exp (3 / 5 :: real) = exp (1 / 5) ^ 3"
    by (simp flip: exp_of_nat_mult)
  also have "\<dots> \<le> (31 / 25) ^ 3"
    using b by (intro power_mono) simp_all
  also have "\<dots> < 2"
    by (simp add: power3_eq_cube)
  finally have "ln (exp (3 / 5 :: real)) < ln 2"
    by (subst ln_less_cancel_iff) simp_all
  then show ?thesis by simp
qed

lemma ln_100_49_le: "ln (100 / 49 :: real) \<le> 18 / 25"
proof -
  have "1 + 9 / 50 + (9 / 50)\<^sup>2 / 2 \<le> exp (9 / 50 :: real)"
    by (rule exp_lower_Taylor_quadratic) simp
  then have b: "(5981 / 5000 :: real) \<le> exp (9 / 50)"
    by (simp add: power2_eq_square)
  have "(100 / 49 :: real) \<le> (5981 / 5000) ^ 4"
    by (simp add: power4_eq_xxxx)
  also have "\<dots> \<le> exp (9 / 50 :: real) ^ 4"
    using b by (intro power_mono) simp_all
  also have "\<dots> = exp (18 / 25 :: real)"
    by (simp flip: exp_of_nat_mult)
  finally have "ln (100 / 49 :: real) \<le> ln (exp (18 / 25))"
    by (subst ln_le_cancel_iff) simp_all
  then show ?thesis by simp
qed

lemma getSize_1_49: "getSize (Fin 1) (Fin (49 / 100)) = Fin 2"
proof -
  have l: "ln (49 / 100 :: real) = - ln (100 / 49)"
    using ln_div [of 1 "100 / 49 :: real"] by simp
  have sq_lo: "(ln (2::real))\<^sup>2 < ln 2"
    using ln_2_less_1 by (simp add: power2_eq_square)
  have "ln (2::real) < ln (100 / 49)"
    by (subst ln_less_cancel_iff) simp_all
  with sq_lo have lo: "(ln (2::real))\<^sup>2 < ln (100 / 49)" by (rule less_trans)
  have "(3 / 5 :: real)\<^sup>2 \<le> (ln 2)\<^sup>2"
    using ln2_gt_three_fifths by (intro power_mono) simp_all
  then have "18 / 25 \<le> 2 * (ln (2::real))\<^sup>2"
    by (simp add: power2_eq_square)
  with ln_100_49_le have hi: "ln (100 / 49 :: real) \<le> 2 * (ln 2)\<^sup>2" by simp
  have pos: "0 < (ln (2::real))\<^sup>2" by simp
  have "\<lceil>ln (100 / 49 :: real) / (ln 2)\<^sup>2\<rceil> = 2"
  proof (rule ceiling_unique)
    from lo pos have "1 < ln (100 / 49 :: real) / (ln 2)\<^sup>2"
      by (subst pos_less_divide_eq) simp_all
    then show "real_of_int 2 - 1 < ln (100 / 49) / (ln 2)\<^sup>2" by simp
    from hi pos have "ln (100 / 49 :: real) / (ln 2)\<^sup>2 \<le> 2"
      by (subst pos_divide_le_eq) simp_all
    then show "ln (100 / 49) / (ln 2)\<^sup>2 \<le> real_of_int 2" by simp
  qed
  moreover have "getSize (Fin 1) (Fin (49 / 100)) = Fin (of_int \<lceil>- (1 * ln (49 / 100 :: real)) / (ln 2)\<^sup>2\<rceil>)"
    by (rule getSize_Fin) simp
  moreover have "- (1 * ln (49 / 100 :: real)) / (ln 2)\<^sup>2 = ln (100 / 49) / (ln 2)\<^sup>2"
    by (simp add: l)
  ultimately show ?thesis
    by (simp only: of_int_numeral)
qed

lemma new_1_49: "new_BloomFilter (Fin 1) (Fin (49 / 100)) = Inr filter_1_49"
  by (simp add: new_BloomFilter_def getSize_1_49 getHashCount_2_1 filter_1_49_def
      filter_1_half_def Let_def)

section \<open>The claims\<close>

text \<open>
  In the claims below a filter ``constructed with valid parameters'' is the result
  \<open>Inr f\<close> of \<open>new_BloomFilter (Fin (of_int n)) (Fin p)\<close> for an integer \<open>n > 0\<close> and a
  real \<open>0 < p < 1\<close>; a string is any list of code units; \<open>[0x61]\<close> is the string
  \<^verbatim>\<open>"a"\<close>.
\<close>

text \<open>
  Claim C1 (no false negatives). On a filter constructed with valid parameters, after
  any sequence of \<^verbatim>\<open>add\<close> calls, \<^verbatim>\<open>add(x)\<close> returns and the \<^verbatim>\<open>check(x)\<close> that follows
  it returns \<^verbatim>\<open>true\<close>, for every string \<open>x\<close>.
\<close>

theorem no_false_negative:
  fixes n :: int and p :: real
  assumes "0 < n" and "0 < p" and "p < 1"
    and "new_BloomFilter (Fin (of_int n)) (Fin p) = Inr f0"
    and "add_all items f0 = Some f"
  shows "\<exists>g. add x f = Some g \<and> check x g = Some (True, g)"
proof -
  have "well_formed f0"
    using assms(1-4) by (rule new_BloomFilter_well_formed)
  then have "\<exists>g. add_all items f0 = Some g \<and> well_formed g"
    by (rule well_formed_add_all)
  with assms(5) have "well_formed f" by simp
  then obtain g where g: "add x f = Some g"
    by (rule well_formed_add)
  then have "check x g = Some (True, g)"
    by (rule check_after_add)
  with g show ?thesis by simp
qed

theorem no_false_negative_witness:
  "0 < (1::int) \<and> 0 < (1 / 2 :: real) \<and> (1 / 2 :: real) < 1
   \<and> new_BloomFilter (Fin (of_int 1)) (Fin (1 / 2)) = Inr filter_1_half
   \<and> add_all [] filter_1_half = Some filter_1_half
   \<and> add [0x61] filter_1_half = Some filter_after_a
   \<and> check [0x61] filter_after_a = Some (True, filter_after_a)"
  using no_false_negative [of 1 "1 / 2" filter_1_half "[]" filter_1_half "[0x61]"]
  by (simp add: new_1_half add_a)




text \<open>
  Claim C3 (monotonicity). For every filter and every sequence of \<^verbatim>\<open>add\<close> calls that
  returns, the keys of the bit array that hold \<open>1\<close> afterwards include those that held
  \<open>1\<close> before, and a \<^verbatim>\<open>check\<close> that returned \<^verbatim>\<open>true\<close> before returns \<^verbatim>\<open>true\<close> afterwards.
\<close>

theorem bits_only_set:
  assumes "add_all items f = Some g"
  shows "ones f \<subseteq> ones g \<and> (check x f = Some (True, f) \<longrightarrow> check x g = Some (True, g))"
  using assms by (simp add: add_all_ones add_all_check_stays)

theorem bits_only_set_witness:
  "add [0x61] filter_1_half = Some filter_after_a
   \<and> (\<exists>g. add_all [[0x62], [0x63]] filter_after_a = Some g
        \<and> ones filter_after_a \<subseteq> ones g
        \<and> check [0x61] filter_after_a = Some (True, filter_after_a)
        \<and> check [0x61] g = Some (True, g))"
proof -
  have "well_formed filter_1_half"
    using new_1_half new_BloomFilter_well_formed [of 1 "1 / 2" filter_1_half] by simp
  then have "\<exists>g. add_all [[0x61]] filter_1_half = Some g \<and> well_formed g"
    by (rule well_formed_add_all)
  then have "well_formed filter_after_a"
    by (simp add: add_a)
  then obtain g where g: "add_all [[0x62], [0x63]] filter_after_a = Some g"
    using well_formed_add_all by blast
  have c: "check [0x61] filter_after_a = Some (True, filter_after_a)"
    using add_a by (rule check_after_add)
  from bits_only_set [OF g, of "[0x61]"] c g add_a show ?thesis by blast
qed

text \<open>
  Claim C4 (idempotence). For every filter and every string \<open>x\<close>, a second \<^verbatim>\<open>add(x)\<close>
  right after the first leaves the filter, and so its bit array, as the first left it.
\<close>

theorem add_idempotent:
  assumes "add x f = Some g"
  shows "add x g = Some g"
  using assms by (rule add_idem)

theorem add_idempotent_witness:
  "add [0x61] filter_1_half = Some filter_after_a
   \<and> add [0x61] filter_after_a = Some filter_after_a"
  using add_idempotent [OF add_a] add_a by simp

text \<open>
  Claim C5 (empty filter). On a filter just constructed with valid parameters,
  \<^verbatim>\<open>check(x)\<close> returns \<^verbatim>\<open>false\<close> for every string \<open>x\<close>.
\<close>

theorem fresh_filter_is_empty:
  fixes n :: int and p :: real
  assumes "0 < n" and "0 < p" and "p < 1"
    and "new_BloomFilter (Fin (of_int n)) (Fin p) = Inr f"
  shows "check x f = Some (False, f)"
  using assms by (rule new_BloomFilter_check)

theorem fresh_filter_is_empty_witness:
  "0 < (1::int) \<and> 0 < (1 / 2 :: real) \<and> (1 / 2 :: real) < 1
   \<and> new_BloomFilter (Fin (of_int 1)) (Fin (1 / 2)) = Inr filter_1_half
   \<and> check [0x61] filter_1_half = Some (False, filter_1_half)"
  using fresh_filter_is_empty [of 1 "1 / 2" filter_1_half "[0x61]"]
  by (simp add: new_1_half)

text \<open>
  Claim C6 (determinism). Take two filters, each the result of a construction, that have
  the same size and the same number of hash functions, as two filters constructed from
  identical arguments have (the case \<open>n' = n\<close>, \<open>p' = p\<close>). Whenever a sequence of
  \<^verbatim>\<open>add\<close> calls returns on the first, the same sequence returns on the second, the two
  bit arrays are then identical, and \<^verbatim>\<open>check\<close> gives the same answer on both, or returns
  on neither, for every query. Nothing else enters: not the two arguments themselves, and
  no state outside the filter.
\<close>

theorem two_runs_agree:
  assumes "new_BloomFilter n p = Inr f1" and "new_BloomFilter n' p' = Inr f2"
    and "size_bf f1 = size_bf f2" and "hashCount f1 = hashCount f2"
    and "add_all items f1 = Some g1"
  shows "\<exists>g2. add_all items f2 = Some g2 \<and> bitArray g1 = bitArray g2
     \<and> map_option fst (check q g1) = map_option fst (check q g2)"
proof -
  have "bitArray f1 = bitArray f2"
    using assms(1-3) by (rule new_BloomFilter_bitArray)
  with assms(3,4) obtain g2 where g2: "add_all items f2 = Some g2"
    "size_bf g1 = size_bf g2" "hashCount g1 = hashCount g2" "bitArray g1 = bitArray g2"
    using add_all_agree [OF _ _ _ assms(5), of f2] by blast
  from g2(2-4) have "map_option fst (check q g1) = map_option fst (check q g2)"
    by (rule check_agree)
  with g2(1,4) show ?thesis by blast
qed

theorem two_runs_agree_witness:
  "new_BloomFilter (Fin 1) (Fin (1 / 2)) = Inr filter_1_half
   \<and> new_BloomFilter (Fin 1) (Fin (49 / 100)) = Inr filter_1_49
   \<and> size_bf filter_1_half = size_bf filter_1_49
   \<and> hashCount filter_1_half = hashCount filter_1_49
   \<and> filter_1_half \<noteq> filter_1_49
   \<and> add_all [[0x61]] filter_1_half = Some filter_after_a
   \<and> (\<exists>g2. add_all [[0x61]] filter_1_49 = Some g2 \<and> bitArray filter_after_a = bitArray g2
        \<and> map_option fst (check [0x61] g2) = Some True)"
proof -
  have s: "size_bf filter_1_half = size_bf filter_1_49"
    "hashCount filter_1_half = hashCount filter_1_49"
    by (simp_all add: filter_1_49_def)
  have d: "filter_1_half \<noteq> filter_1_49"
  proof
    assume "filter_1_half = filter_1_49"
    then have "falsePositiveRate filter_1_half = falsePositiveRate filter_1_49" by simp
    then show False by (simp add: filter_1_49_def filter_1_half_def)
  qed
  have a: "add_all [[0x61]] filter_1_half = Some filter_after_a"
    by (simp add: add_a)
  have c: "map_option fst (check [0x61] filter_after_a) = Some True"
    using check_after_add [OF add_a] by simp
  from two_runs_agree [OF new_1_half new_1_49 s a, of "[0x61]"]
  obtain g2 where g2: "add_all [[0x61]] filter_1_49 = Some g2"
    "bitArray filter_after_a = bitArray g2"
    "map_option fst (check [0x61] filter_after_a) = map_option fst (check [0x61] g2)"
    by blast
  from g2(3) c have "map_option fst (check [0x61] g2) = Some True"
    by (simp only:)
  with g2(1,2) have "\<exists>g2. add_all [[0x61]] filter_1_49 = Some g2
      \<and> bitArray filter_after_a = bitArray g2
      \<and> map_option fst (check [0x61] g2) = Some True"
    by blast
  with new_1_half new_1_49 s d a show ?thesis
    by (intro conjI)
qed

text \<open>
  Claim C8 (\<^verbatim>\<open>check\<close> only reads). For every filter and every string, the filter after
  a \<^verbatim>\<open>check\<close> that returns is the filter before it, in all five fields.
\<close>

theorem check_changes_nothing:
  assumes "check x f = Some (b, g)"
  shows "g = f"
  using assms check_from_state [of x 0 f "(b, g)"] by (simp add: check_def)

theorem check_changes_nothing_witness:
  "check [0x61] filter_1_half = Some (False, filter_1_half) \<and> filter_1_half = filter_1_half"
  using check_changes_nothing [of "[0x61]" filter_1_half False filter_1_half]
    new_BloomFilter_check [of 1 "1 / 2" filter_1_half "[0x61]"]
  by (simp add: new_1_half)

text \<open>
  Claim C9 (no failure at run time). On a filter constructed with valid parameters every
  sequence of \<^verbatim>\<open>add\<close> calls returns, and then \<^verbatim>\<open>add\<close> and \<^verbatim>\<open>check\<close> return for every
  string, and every index they compute, whatever the seed, is a natural number below the
  size, which is the length of the bit array.
\<close>

theorem add_and_check_return:
  fixes n :: int and p :: real
  assumes "0 < n" and "0 < p" and "p < 1"
    and "new_BloomFilter (Fin (of_int n)) (Fin p) = Inr f0"
  shows "\<exists>f. add_all items f0 = Some f
     \<and> (\<exists>g. add x f = Some g)
     \<and> (\<exists>b. check x f = Some (b, f))
     \<and> (\<exists>j. hash_index f x i = Fin (real j) \<and> j < array_length (bitArray f)
           \<and> size_bf f = Fin (real (array_length (bitArray f))))"
proof -
  have "well_formed f0"
    using assms by (rule new_BloomFilter_well_formed)
  then obtain f where f: "add_all items f0 = Some f" "well_formed f"
    using well_formed_add_all by blast
  from f(2) obtain g where "add x f = Some g"
    by (rule well_formed_add)
  moreover from f(2) have "\<exists>b. check x f = Some (b, f)"
    by (rule well_formed_check)
  moreover from f(2) have "\<exists>j. hash_index f x i = Fin (real j) \<and> j < array_length (bitArray f)
           \<and> size_bf f = Fin (real (array_length (bitArray f)))"
    by (rule well_formed_hash_index)
  ultimately show ?thesis
    using f(1) by blast
qed

theorem add_and_check_return_witness:
  "0 < (1::int) \<and> 0 < (1 / 2 :: real) \<and> (1 / 2 :: real) < 1
   \<and> new_BloomFilter (Fin (of_int 1)) (Fin (1 / 2)) = Inr filter_1_half
   \<and> (\<exists>f. add_all [[0x61]] filter_1_half = Some f
     \<and> (\<exists>g. add [0x62] f = Some g)
     \<and> (\<exists>b. check [0x62] f = Some (b, f))
     \<and> (\<exists>j. hash_index f [0x62] 1 = Fin (real j) \<and> j < array_length (bitArray f)
           \<and> size_bf f = Fin (real (array_length (bitArray f)))))"
  using add_and_check_return [of 1 "1 / 2" filter_1_half "[[0x61]]" "[0x62]" 1]
  by (simp add: new_1_half)

text \<open>
  Claim C10 (\<^verbatim>\<open>add\<close> writes bits only). On a filter whose size is a positive integer
  and the length of its bit array, an \<^verbatim>\<open>add\<close> that returns leaves \<^verbatim>\<open>expectedItems\<close>,
  \<^verbatim>\<open>falsePositiveRate\<close>, \<^verbatim>\<open>size\<close> and \<^verbatim>\<open>hashCount\<close> as they were, and the bit array at
  the same length.
\<close>

theorem add_changes_bits_only:
  assumes "size_bf f = Fin (real m)" and "0 < m" and "array_length (bitArray f) = m"
    and "add x f = Some g"
  shows "expectedItems g = expectedItems f \<and> falsePositiveRate g = falsePositiveRate f
     \<and> size_bf g = size_bf f \<and> hashCount g = hashCount f
     \<and> array_length (bitArray g) = m"
  using add_fields [OF assms(4)] add_length [OF assms] by simp

theorem add_changes_bits_only_witness:
  "size_bf filter_1_half = Fin (real 2) \<and> (0::nat) < 2
   \<and> array_length (bitArray filter_1_half) = 2
   \<and> add [0x61] filter_1_half = Some filter_after_a
   \<and> expectedItems filter_after_a = Fin 1 \<and> falsePositiveRate filter_after_a = Fin (1 / 2)
   \<and> size_bf filter_after_a = Fin 2 \<and> hashCount filter_after_a = Fin 2
   \<and> array_length (bitArray filter_after_a) = 2"
proof -
  have a: "size_bf filter_1_half = Fin (real 2)" "array_length (bitArray filter_1_half) = 2"
    by (simp_all add: filter_1_half_def fill_def holes_def)
  from add_changes_bits_only [OF a(1) _ a(2) add_a] add_a a show ?thesis
    by (simp add: filter_1_half_def)
qed

end
